theory Spec2Isabelle
  imports
    Main
    "HOL-Library.Word"
    "HOL-Library.AList"
    "HOL-Library.Multiset"
    "HOL-Library.Char_ord"
    "HOL-Library.List_Lexorder"
begin

section \<open>taggo: Exuberant-Ctags compatible tags for Go source\<close>

text \<open>
  A shallow embedding of \<^verbatim>\<open>main.go\<close>. Go strings and byte slices are byte lists
  (\<^typ>\<open>string\<close>); the Go type \<^verbatim>\<open>int\<close> is a 64-bit two's complement word whose
  \<^verbatim>\<open>++\<close> wraps around; the global slice \<^verbatim>\<open>tags\<close> is passed in and returned; a
  run-time panic is a value of type \<open>panic\<close>. The collaborators from the Go standard
  library (the file system, the parser, the position table of \<^verbatim>\<open>go/token\<close>, the
  iteration order of a \<^verbatim>\<open>range\<close> over a map) are parameters.
\<close>

subsection \<open>Bytes, integers and constants\<close>

type_synonym go_int = "64 word"

definition NL :: char where
  "NL = CHR 0x0A"

definition TAB :: char where
  "TAB = CHR 0x09"

definition DQUOTE :: char where
  "DQUOTE = CHR 0x22"

definition TAG_FILE_FORMAT :: string where
  "TAG_FILE_FORMAT = ''!_TAG_FILE_FORMAT'' @ [TAB] @ ''2''"

definition TAG_FILE_SORTED :: string where
  "TAG_FILE_SORTED = ''!_TAG_FILE_SORTED'' @ [TAB] @ ''1''"

definition TAG_PROGRAM_AUTHOR :: string where
  "TAG_PROGRAM_AUTHOR = ''!_TAG_PROGRAM_AUTHOR'' @ [TAB] @ ''Arjen Laarhoven''"

definition TAG_PROGRAM_NAME :: string where
  "TAG_PROGRAM_NAME = ''!_TAG_PROGRAM_NAME'' @ [TAB] @ ''taggo''"

definition TAG_PROGRAM_URL :: string where
  "TAG_PROGRAM_URL = ''!_TAG_PROGRAM_URL'' @ [TAB] @ ''https://github.com/ArjenL/taggo''"

definition CLASS :: char where
  "CLASS = CHR ''c''"

definition CONST_kind :: char where
  "CONST_kind = CHR ''d''"

definition FUNC :: char where
  "FUNC = CHR ''f''"

definition MEMBER :: char where
  "MEMBER = CHR ''m''"

definition STRUCT :: char where
  "STRUCT = CHR ''s''"

definition TYPE_kind :: char where
  "TYPE_kind = CHR ''t''"

definition VAR :: char where
  "VAR = CHR ''v''"

subsection \<open>The line resolver\<close>

text \<open>
  \<^verbatim>\<open>os.Open\<close> succeeds on the paths where the file system holds a content. A reader is
  the list of the bytes not read yet. \<^verbatim>\<open>r.ReadBytes('\n')\<close> returns the bytes up to
  and including the first newline; when there is none it returns all that is left,
  with \<^verbatim>\<open>io.EOF\<close>. The result is the data, whether the error is \<^verbatim>\<open>io.EOF\<close>, and the
  reader afterwards. Reads fail in no other way.
\<close>

type_synonym filesystem = "string \<Rightarrow> string option"

fun ReadBytes :: "string \<Rightarrow> string \<times> bool \<times> string" where
  "ReadBytes [] = ([], True, [])"
| "ReadBytes (c # cs) =
     (if c = NL then ([c], False, cs)
      else (case ReadBytes cs of (d, eof, r) \<Rightarrow> (c # d, eof, r)))"

text \<open>
  The \<^verbatim>\<open>for\<close> loop of \<^verbatim>\<open>contentOfLine\<close>, on the requested line, the counter
  \<^verbatim>\<open>ln\<close> and the reader. The last argument counts the calls of \<^verbatim>\<open>ReadBytes\<close>
  made so far and is returned beside the result; the source has no such counter.
  \<^verbatim>\<open>cl[:len(cl)-1]\<close> is \<^term>\<open>butlast cl\<close>.

  The loop ends for every argument: leaving the two returns aside, the counter
  reaches \<^verbatim>\<open>line\<close> after \<^term>\<open>unat (line - ln)\<close> increments, wrapping around
  if it has to.
\<close>

function scanLines :: "go_int \<Rightarrow> go_int \<Rightarrow> string \<Rightarrow> nat \<Rightarrow> string \<times> nat" where
  "scanLines line ln r reads =
     (case ReadBytes r of (cl, eof, r') \<Rightarrow>
        if eof \<and> sint ln < sint line then ([], Suc reads)
        else if ln = line then ((if 0 < length cl then butlast cl else cl), Suc reads)
        else scanLines line (ln + 1) r' (Suc reads))"
  by pat_completeness auto
termination
proof (relation "measure (\<lambda>(line, ln, r, reads). unat (line - ln))")
  show "wf (measure (\<lambda>(line, ln, r, reads). unat (line - ln)))"
    by simp
next
  fix line ln :: go_int and r :: string and reads :: nat
    and x :: "string \<times> bool \<times> string" and cl :: string and y :: "bool \<times> string"
    and eof :: bool and r' :: string
  assume "ln \<noteq> line"
  then have nz: "line - ln \<noteq> 0"
    by simp
  have "line - (ln + 1) = (line - ln) - 1"
    by simp
  then have "unat (line - (ln + 1)) = unat (line - ln) - 1"
    using unat_minus_one [OF nz] by (simp only:)
  moreover have "0 < unat (line - ln)"
    using nz by (simp add: unat_gt_0)
  ultimately show "((line, ln + 1, r', Suc reads), (line, ln, r, reads))
      \<in> measure (\<lambda>(line, ln, r, reads). unat (line - ln))"
    by simp
qed

declare scanLines.simps [simp del]

definition contentOfLine :: "filesystem \<Rightarrow> go_int \<Rightarrow> string \<Rightarrow> string" where
  "contentOfLine disk line file =
     (case disk file of
        None \<Rightarrow> []
      | Some content \<Rightarrow> fst (scanLines line 1 content 0))"

subsection \<open>Positions and the syntax tree\<close>

text \<open>
  \<^verbatim>\<open>token.Pos\<close> is an integer; \<^verbatim>\<open>fset.Position\<close> turns it into a file name and a
  line number (the column and the offset are not read by the program). The nodes of
  \<^verbatim>\<open>go/ast\<close> keep the fields that the program reads, under their names in
  \<^verbatim>\<open>go/ast\<close>. A pointer that \<^verbatim>\<open>go/ast\<close> documents as possibly nil, the receiver of
  a function declaration, is an option; every expression that is neither an
  identifier, a pointer type, a selector, a struct type nor an interface type is
  \<open>OtherExpr\<close>, with its position.
\<close>

type_synonym Pos = int

record Position =
  Filename :: string
  Line :: go_int

type_synonym FileSet = "Pos \<Rightarrow> Position"

datatype Ident = Ident (NamePos: Pos) (Name: string)

datatype Expr =
    IdentExpr Ident
  | StarExpr Pos Expr
  | SelectorExpr Expr Ident
  | StructType Pos "Field list"
  | InterfaceType Pos "Field list"
  | OtherExpr Pos
and Field = AField (Names: "Ident list") (Type: Expr)

text \<open>The method \<^verbatim>\<open>Pos()\<close> of an expression, as \<^verbatim>\<open>go/ast\<close> defines it.\<close>

fun Expr_Pos :: "Expr \<Rightarrow> Pos" where
  "Expr_Pos (IdentExpr x) = NamePos x"
| "Expr_Pos (StarExpr star x) = star"
| "Expr_Pos (SelectorExpr x sel) = Expr_Pos x"
| "Expr_Pos (StructType struct flds) = struct"
| "Expr_Pos (InterfaceType interface methods) = interface"
| "Expr_Pos (OtherExpr pos) = pos"

datatype Token = Tok_IMPORT | Tok_CONST | Tok_TYPE | Tok_VAR

datatype TypeSpec = TypeSpec Ident Expr

datatype Spec = ImportSpec | TypeSpecNode TypeSpec | ValueSpec "Ident list"

text \<open>
  A function declaration: the list of the receiver's field list if there is one,
  the name, and the declaration's \<^verbatim>\<open>Pos()\<close>. A general declaration: the keyword
  and the specs.
\<close>

datatype FuncDecl = FuncDecl "Field list option" Ident Pos

datatype GenDecl = GenDecl Token "Spec list"

datatype Decl = BadDecl | FuncDeclNode FuncDecl | GenDeclNode GenDecl

text \<open>A parsed file: the package name (\<^verbatim>\<open>src.Name.Name\<close>) and the declarations.\<close>

datatype File = File (PkgName: string) (Decls: "Decl list")

text \<open>
  A Go map is an association list with distinct keys; \<^verbatim>\<open>m[k] = v\<close> is
  \<^term>\<open>AList.update k v m\<close> and a lookup is \<^term>\<open>map_of m k\<close>. A package: its name
  and the map from file names to files.
\<close>

datatype Package = Package (PackageName: string) (Files: "(string \<times> File) list")

datatype panic = IndexOutOfRange

subsection \<open>Formatting and emitting a tag\<close>

text \<open>
  \<^verbatim>\<open>fmt.Sprintf\<close>, for the verbs and operands that the program uses: \<^verbatim>\<open>%s\<close> with a
  string or a byte slice prints its bytes, \<^verbatim>\<open>%c\<close> with a rune prints the
  character, which is one byte for the runes below 128 that the program passes.
  Every other byte of the format is copied.
\<close>

datatype fmt_arg = Str string | Rune char

fun Sprintf :: "string \<Rightarrow> fmt_arg list \<Rightarrow> string" where
  "Sprintf (c # v # fs) (a # as) =
     (if c = CHR ''%'' \<and> v = CHR ''s'' then (case a of Str s \<Rightarrow> s @ Sprintf fs as | Rune r \<Rightarrow> c # Sprintf (v # fs) (a # as))
      else if c = CHR ''%'' \<and> v = CHR ''c'' then (case a of Rune r \<Rightarrow> r # Sprintf fs as | Str s \<Rightarrow> c # Sprintf (v # fs) (a # as))
      else c # Sprintf (v # fs) (a # as))"
| "Sprintf (c # fs) as = c # Sprintf fs as"
| "Sprintf [] as = []"

definition tag_format :: string where
  "tag_format = ''%s'' @ [TAB] @ ''%s'' @ [TAB] @ ''/^%s$/;'' @ [DQUOTE] @ [TAB] @ ''%c'' @ [TAB] @ ''%s''"

definition emitTag :: "filesystem \<Rightarrow> string \<Rightarrow> Pos \<Rightarrow> FileSet \<Rightarrow> char \<Rightarrow> string \<Rightarrow> string list \<Rightarrow> string list" where
  "emitTag disk tag pos fset kind extra tags =
     (let p = fset pos;
          searchString = contentOfLine disk (Line p) (Filename p)
      in tags @ [Sprintf tag_format [Str tag, Str (Filename p), Str searchString, Rune kind, Str extra]])"

subsection \<open>The declaration classifier\<close>

definition stripStar :: "Expr \<Rightarrow> Expr" where
  "stripStar typ = (case typ of StarExpr star x \<Rightarrow> x | _ \<Rightarrow> typ)"

function typeName :: "Expr \<Rightarrow> string" where
  "typeName typ =
     (case stripStar typ of
        IdentExpr id' \<Rightarrow> Name id'
      | SelectorExpr x sel \<Rightarrow> typeName x @ ''.'' @ Name sel
      | _ \<Rightarrow> [])"
  by pat_completeness auto
termination
  by (relation "measure size") (auto simp: stripStar_def split: Expr.splits)

declare typeName.simps [simp del]

text \<open>
  \<^verbatim>\<open>decl.Recv.List[0]\<close> panics when the receiver's field list is there and empty.
\<close>

fun funcDecl :: "filesystem \<Rightarrow> FileSet \<Rightarrow> FuncDecl \<Rightarrow> string list \<Rightarrow> panic + string list" where
  "funcDecl disk fset (FuncDecl recv name pos) tags =
     (case recv of
        Some list \<Rightarrow>
          (case list of
             [] \<Rightarrow> Inl IndexOutOfRange
           | f # _ \<Rightarrow> Inr (emitTag disk (Name name) pos fset FUNC (''class:'' @ typeName (Type f)) tags))
      | None \<Rightarrow> Inr (emitTag disk (Name name) pos fset FUNC [] tags))"

fun typeSpec :: "filesystem \<Rightarrow> FileSet \<Rightarrow> TypeSpec \<Rightarrow> string list \<Rightarrow> string list" where
  "typeSpec disk fset (TypeSpec name typ) tags =
     (case typ of
        StructType struct flds \<Rightarrow>
          fold (\<lambda>f. fold (\<lambda>m. emitTag disk (Name m) (NamePos m) fset MEMBER
                                 (Sprintf ''struct:%s'' [Str (Name name)])) (Names f))
            flds (emitTag disk (Name name) (Expr_Pos typ) fset STRUCT [] tags)
      | InterfaceType interface methods \<Rightarrow>
          fold (\<lambda>f. fold (\<lambda>m. emitTag disk (Name m) (NamePos m) fset FUNC
                                 (Sprintf ''class:%s'' [Str (Name name)])) (Names f))
            methods (emitTag disk (Name name) (Expr_Pos typ) fset CLASS [] tags)
      | _ \<Rightarrow> emitTag disk (Name name) (Expr_Pos typ) fset TYPE_kind [] tags)"

text \<open>
  \<^verbatim>\<open>var kind rune\<close> starts at 0 and is set for the two keywords of a value
  declaration.
\<close>

definition valueKind :: "Token \<Rightarrow> char" where
  "valueKind tok = (case tok of Tok_CONST \<Rightarrow> CONST_kind | Tok_VAR \<Rightarrow> VAR | _ \<Rightarrow> CHR 0x00)"

fun genDecl :: "filesystem \<Rightarrow> FileSet \<Rightarrow> GenDecl \<Rightarrow> string list \<Rightarrow> string list" where
  "genDecl disk fset (GenDecl tok specs) tags =
     fold (\<lambda>spec tags.
             case spec of
               TypeSpecNode nt \<Rightarrow> typeSpec disk fset nt tags
             | ValueSpec names \<Rightarrow>
                 fold (\<lambda>ident. emitTag disk (Name ident) (NamePos ident) fset (valueKind tok) []) names tags
             | _ \<Rightarrow> tags)
       specs tags"

fun handleDecls :: "filesystem \<Rightarrow> FileSet \<Rightarrow> Decl list \<Rightarrow> string list \<Rightarrow> panic + string list" where
  "handleDecls disk fset [] tags = Inr tags"
| "handleDecls disk fset (decl # decls) tags =
     (case decl of
        FuncDeclNode d \<Rightarrow>
          (case funcDecl disk fset d tags of
             Inl p \<Rightarrow> Inl p
           | Inr tags' \<Rightarrow> handleDecls disk fset decls tags')
      | GenDeclNode d \<Rightarrow> handleDecls disk fset decls (genDecl disk fset d tags)
      | _ \<Rightarrow> handleDecls disk fset decls tags)"

subsection \<open>Parsing the files and the main routine\<close>

text \<open>
  The second loop of \<^verbatim>\<open>parseFiles\<close>, on the list \<^verbatim>\<open>files\<close> that the first loop has
  collected from the command line. \<^verbatim>\<open>parser.ParseFile\<close> is the parameter
  \<open>ParseFile\<close>, from a file name to a parse error (\<open>Inl\<close>) or a parsed file. The
  package is held by pointer, so that the assignment to \<^verbatim>\<open>pkg.Files[filename]\<close>
  changes the package stored under \<^verbatim>\<open>pkgs[name]\<close>.
\<close>

type_synonym parse_error = string

fun parseLoop :: "(string \<Rightarrow> parse_error + File) \<Rightarrow> string list \<Rightarrow> (string \<times> Package) list
    \<Rightarrow> parse_error option \<Rightarrow> (string \<times> Package) list \<times> parse_error option" where
  "parseLoop ParseFile [] pkgs first = (pkgs, first)"
| "parseLoop ParseFile (filename # files) pkgs first =
     (case ParseFile filename of
        Inr src \<Rightarrow>
          (let name = PkgName src;
               pkg = (case map_of pkgs name of
                        Some pkg \<Rightarrow> pkg
                      | None \<Rightarrow> Package name [])
           in parseLoop ParseFile files
                (AList.update name (Package (PackageName pkg) (AList.update filename src (Files pkg))) pkgs)
                first)
      | Inl err \<Rightarrow>
          parseLoop ParseFile files pkgs (if first = None then Some err else first))"

definition parseFiles :: "(string \<Rightarrow> parse_error + File) \<Rightarrow> string list
    \<Rightarrow> (string \<times> Package) list \<times> parse_error option" where
  "parseFiles ParseFile files = parseLoop ParseFile files [] None"

definition printTagsHeader :: "string list" where
  "printTagsHeader =
     [TAG_FILE_FORMAT, TAG_FILE_SORTED, TAG_PROGRAM_AUTHOR, TAG_PROGRAM_NAME, TAG_PROGRAM_URL]"

text \<open>
  The two nested \<^verbatim>\<open>range\<close> loops of \<^verbatim>\<open>main\<close>, each on the entries of its map in
  the order in which the run visits them. A panic ends both.
\<close>

fun rangeFiles :: "filesystem \<Rightarrow> FileSet \<Rightarrow> (string \<times> File) list \<Rightarrow> string list \<Rightarrow> panic + string list" where
  "rangeFiles disk fset [] tags = Inr tags"
| "rangeFiles disk fset ((filename, file) # rest) tags =
     (case handleDecls disk fset (Decls file) tags of
        Inl p \<Rightarrow> Inl p
      | Inr tags' \<Rightarrow> rangeFiles disk fset rest tags')"

fun rangePkgs :: "filesystem \<Rightarrow> FileSet \<Rightarrow> ((string \<times> File) list \<Rightarrow> (string \<times> File) list)
    \<Rightarrow> (string \<times> Package) list \<Rightarrow> string list \<Rightarrow> panic + string list" where
  "rangePkgs disk fset fileOrder [] tags = Inr tags"
| "rangePkgs disk fset fileOrder ((name, pkg) # rest) tags =
     (case rangeFiles disk fset (fileOrder (Files pkg)) tags of
        Inl p \<Rightarrow> Inl p
      | Inr tags' \<Rightarrow> rangePkgs disk fset fileOrder rest tags')"

text \<open>
  Go leaves the order of a \<^verbatim>\<open>range\<close> over a map open. The run's choice is a
  parameter, one for each of the two maps: a function from the entries of a map to
  the same entries in the order of the visit. It is an iteration order when it
  permutes every map.
\<close>

definition iteration_order :: "(('k \<times> 'v) list \<Rightarrow> ('k \<times> 'v) list) \<Rightarrow> bool" where
  "iteration_order order = (\<forall>m. mset (order m) = mset m)"

text \<open>
  \<^verbatim>\<open>main\<close>. \<^verbatim>\<open>sort.Strings\<close> sorts in increasing order of Go's \<^verbatim>\<open><\<close> on strings,
  which compares byte by byte: this is \<^term>\<open>sort\<close> on byte lists under the
  lexicographic order of the bytes' values. The result is the sequence of the lines
  written to the standard output, each of which the program ends with a newline;
  a run that panics has written none.
\<close>

definition main :: "filesystem \<Rightarrow> FileSet \<Rightarrow> (string \<Rightarrow> parse_error + File) \<Rightarrow> string list
    \<Rightarrow> ((string \<times> Package) list \<Rightarrow> (string \<times> Package) list)
    \<Rightarrow> ((string \<times> File) list \<Rightarrow> (string \<times> File) list) \<Rightarrow> panic + string list" where
  "main disk fset ParseFile files pkgOrder fileOrder =
     (case parseFiles ParseFile files of
        (pkgs, _) \<Rightarrow>
          (case rangePkgs disk fset fileOrder (pkgOrder pkgs) [] of
             Inl p \<Rightarrow> Inl p
           | Inr tags \<Rightarrow> Inr (printTagsHeader @ sort tags)))"

subsection \<open>Notions of the specification\<close>

text \<open>
  The lines of a file, without their newlines; bytes after the last newline are a
  line of their own. A file is unterminated when it ends in the middle of a line.
\<close>

fun file_lines :: "string \<Rightarrow> string list" where
  "file_lines [] = []"
| "file_lines (c # cs) =
     (if c = NL then [] # file_lines cs
      else (case file_lines cs of [] \<Rightarrow> [[c]] | l # ls \<Rightarrow> (c # l) # ls))"

definition unterminated :: "string \<Rightarrow> bool" where
  "unterminated r = (r \<noteq> [] \<and> last r \<noteq> NL)"

text \<open>
  What the scan yields for the line with index \<open>i\<close>, counted from 0: the line,
  without its last byte if it is the unterminated last line, and nothing beyond the
  last line.
\<close>

definition line_at :: "string \<Rightarrow> nat \<Rightarrow> string" where
  "line_at r i =
     (if i < length (file_lines r)
      then (if Suc i = length (file_lines r) \<and> unterminated r
            then butlast (file_lines r ! i) else file_lines r ! i)
      else [])"

text \<open>The error of the first file of the list that fails to parse.\<close>

fun firstFailure :: "(string \<Rightarrow> parse_error + File) \<Rightarrow> string list \<Rightarrow> parse_error option" where
  "firstFailure ParseFile [] = None"
| "firstFailure ParseFile (filename # files) =
     (case ParseFile filename of Inl err \<Rightarrow> Some err | Inr src \<Rightarrow> firstFailure ParseFile files)"

text \<open>Fields separated by single tabs, and the record of a tag in its five fields.\<close>

fun joinTabs :: "string list \<Rightarrow> string" where
  "joinTabs [] = []"
| "joinTabs [f] = f"
| "joinTabs (f # g # fs) = f @ TAB # joinTabs (g # fs)"

definition tagRecord :: "string \<Rightarrow> string \<Rightarrow> string \<Rightarrow> char \<Rightarrow> string \<Rightarrow> string" where
  "tagRecord name file content kind scope =
     joinTabs [name, file, ''/^'' @ content @ ''$/;'' @ [DQUOTE], [kind], scope]"

text \<open>The record of the symbol \<open>name\<close> declared at \<open>pos\<close>.\<close>

definition tagAt :: "filesystem \<Rightarrow> FileSet \<Rightarrow> string \<Rightarrow> Pos \<Rightarrow> char \<Rightarrow> string \<Rightarrow> string" where
  "tagAt disk fset name pos kind scope =
     tagRecord name (Filename (fset pos))
       (contentOfLine disk (Line (fset pos)) (Filename (fset pos))) kind scope"

text \<open>A selector chain \<open>a.b\<^sub>1. \<dots> .b\<^sub>n\<close> on an identifier, and its dotted name.\<close>

definition selectorChain :: "Ident \<Rightarrow> Ident list \<Rightarrow> Expr" where
  "selectorChain a bs = foldl SelectorExpr (IdentExpr a) bs"

definition dottedName :: "Ident \<Rightarrow> Ident list \<Rightarrow> string" where
  "dottedName a bs = Name a @ concat (map (\<lambda>b. ''.'' @ Name b) bs)"

subsection \<open>A sample run\<close>

text \<open>
  Two files and their syntax trees, for evaluating the definitions: \<^verbatim>\<open>p.go\<close> with a
  struct type, a method and a variable, \<^verbatim>\<open>q.go\<close> with an interface type. The sample
  position \<open>100 * line + column\<close> lies in \<^verbatim>\<open>p.go\<close>, the position 1000 higher in
  \<^verbatim>\<open>q.go\<close>. Every other file name fails to parse.
\<close>

definition sample_disk :: filesystem where
  "sample_disk =
     [''p.go'' \<mapsto>
        ''package p'' @ [NL] @
        ''type T struct {'' @ [NL] @
        [TAB] @ ''X int'' @ [NL] @
        ''}'' @ [NL] @
        ''func (t *T) M() {}'' @ [NL] @
        ''var V = 1'' @ [NL],
      ''q.go'' \<mapsto>
        ''package q'' @ [NL] @
        ''type I interface {'' @ [NL] @
        [TAB] @ ''F()'' @ [NL] @
        ''}'' @ [NL]]"

definition sample_fset :: FileSet where
  "sample_fset pos =
     \<lparr>Filename = (if pos < 1000 then ''p.go'' else ''q.go''),
      Line = word_of_int (pos mod 1000 div 100)\<rparr>"

definition sample_p :: File where
  "sample_p =
     File ''p''
       [GenDeclNode (GenDecl Tok_TYPE
          [TypeSpecNode (TypeSpec (Ident 206 ''T'')
             (StructType 208 [AField [Ident 302 ''X''] (IdentExpr (Ident 304 ''int''))]))]),
        FuncDeclNode (FuncDecl
          (Some [AField [Ident 507 ''t''] (StarExpr 509 (IdentExpr (Ident 510 ''T'')))])
          (Ident 513 ''M'') 501),
        GenDeclNode (GenDecl Tok_VAR [ValueSpec [Ident 605 ''V'']])]"

definition sample_q :: File where
  "sample_q =
     File ''q''
       [GenDeclNode (GenDecl Tok_TYPE
          [TypeSpecNode (TypeSpec (Ident 1206 ''I'')
             (InterfaceType 1208 [AField [Ident 1302 ''F''] (OtherExpr 1303)]))])]"

definition sample_ParseFile :: "string \<Rightarrow> parse_error + File" where
  "sample_ParseFile filename =
     (if filename = ''p.go'' then Inr sample_p
      else if filename = ''q.go'' then Inr sample_q
      else Inl ''expected declaration'')"

text \<open>The tags of the sample files, in sorted order.\<close>

definition sample_tags :: "string list" where
  "sample_tags =
     [''F'' @ [TAB] @ ''q.go'' @ [TAB] @ ''/^'' @ [TAB] @ ''F()$/;'' @ [DQUOTE] @ [TAB] @ ''f'' @ [TAB] @ ''class:I'',
      ''I'' @ [TAB] @ ''q.go'' @ [TAB] @ ''/^type I interface {$/;'' @ [DQUOTE] @ [TAB] @ ''c'' @ [TAB],
      ''M'' @ [TAB] @ ''p.go'' @ [TAB] @ ''/^func (t *T) M() {}$/;'' @ [DQUOTE] @ [TAB] @ ''f'' @ [TAB] @ ''class:T'',
      ''T'' @ [TAB] @ ''p.go'' @ [TAB] @ ''/^type T struct {$/;'' @ [DQUOTE] @ [TAB] @ ''s'' @ [TAB],
      ''V'' @ [TAB] @ ''p.go'' @ [TAB] @ ''/^var V = 1$/;'' @ [DQUOTE] @ [TAB] @ ''v'' @ [TAB],
      ''X'' @ [TAB] @ ''p.go'' @ [TAB] @ ''/^'' @ [TAB] @ ''X int$/;'' @ [DQUOTE] @ [TAB] @ ''m'' @ [TAB] @ ''struct:T'']"

section \<open>Properties\<close>

subsection \<open>The line counter and the reader\<close>

lemma sint_succ:
  fixes ln line :: go_int
  assumes "sint ln < sint line"
  shows "sint (ln + 1) = sint ln + 1"
proof -
  have "sint line < 2 ^ 63"
    using sint_lt [of line] by simp
  moreover have "- (2 ^ 63) \<le> sint ln"
    using sint_ge [of ln] by simp
  ultimately have "signed_take_bit 63 (sint ln + 1) = sint ln + 1"
    using assms by (intro signed_take_bit_int_eq_self) auto
  then show ?thesis
    by (simp add: sint_word_ariths)
qed

lemma sint_succ_max:
  fixes ln :: go_int
  assumes "sint ln = 2 ^ 63 - 1"
  shows "sint (ln + 1) = - (2 ^ 63)"
proof -
  have "sint (ln + 1) = signed_take_bit 63 (sint ln + 1)"
    by (simp add: sint_word_ariths)
  also have "\<dots> = signed_take_bit 63 (2 ^ 63 :: int)"
    using assms by simp
  also have "\<dots> = - (2 ^ 63)"
    by (simp add: signed_take_bit_eq_take_bit_minus)
  finally show ?thesis .
qed

lemma ReadBytes_eof:
  "ReadBytes r = (cl, True, r') \<Longrightarrow> r' = [] \<and> cl = r \<and> NL \<notin> set r"
  by (induction r arbitrary: cl r') (auto split: if_splits prod.splits)

lemma ReadBytes_line:
  "ReadBytes r = (cl, False, r') \<Longrightarrow> \<exists>l. cl = l @ [NL] \<and> NL \<notin> set l \<and> r = l @ NL # r'"
proof (induction r arbitrary: cl r')
  case Nil
  then show ?case by simp
next
  case (Cons c cs)
  show ?case
  proof (cases "c = NL")
    case True
    with Cons.prems show ?thesis by auto
  next
    case False
    with Cons.prems obtain d where d: "ReadBytes cs = (d, False, r')" "cl = c # d"
      by (auto split: prod.splits)
    from Cons.IH [OF d(1)] obtain l where "d = l @ [NL]" "NL \<notin> set l" "cs = l @ NL # r'"
      by blast
    with d False show ?thesis
      by (intro exI [of _ "c # l"]) auto
  qed
qed

lemma file_lines_Nil_iff: "file_lines r = [] \<longleftrightarrow> r = []"
  by (cases r) (auto split: list.splits)

lemma file_lines_single: "NL \<notin> set l \<Longrightarrow> l \<noteq> [] \<Longrightarrow> file_lines l = [l]"
proof (induction l)
  case Nil
  then show ?case by simp
next
  case (Cons c l)
  then show ?case
    by (cases "l = []") auto
qed

lemma file_lines_line: "NL \<notin> set l \<Longrightarrow> file_lines (l @ NL # r) = l # file_lines r"
  by (induction l) (auto split: list.splits)

lemma line_at_Nil: "line_at [] i = []"
  by (simp add: line_at_def)

lemma line_at_last_0: "NL \<notin> set r \<Longrightarrow> line_at r 0 = butlast r"
proof (cases "r = []")
  case True
  then show ?thesis by (simp add: line_at_def)
next
  case False
  assume nl: "NL \<notin> set r"
  have "unterminated r"
    unfolding unterminated_def using nl False by (metis last_in_set)
  then show ?thesis
    using nl False by (simp add: line_at_def file_lines_single)
qed

lemma line_at_last_Suc: "NL \<notin> set r \<Longrightarrow> line_at r (Suc i) = []"
  by (cases "r = []") (simp_all add: line_at_def file_lines_single)

lemma line_at_line_0: "NL \<notin> set l \<Longrightarrow> line_at (l @ NL # r') 0 = l"
  by (simp add: line_at_def file_lines_line file_lines_Nil_iff unterminated_def)

lemma line_at_line_Suc:
  assumes "NL \<notin> set l"
  shows "line_at (l @ NL # r') (Suc i) = line_at r' i"
proof -
  have "unterminated (l @ NL # r') = unterminated r'"
    by (simp add: unterminated_def)
  moreover have "file_lines (l @ NL # r') ! Suc i = file_lines r' ! i"
    using assms by (simp add: file_lines_line)
  moreover have "length (file_lines (l @ NL # r')) = Suc (length (file_lines r'))"
    using assms by (simp add: file_lines_line)
  ultimately show ?thesis
    by (simp only: line_at_def Suc_less_eq nat.inject)
qed

lemma scanLines_result:
  "sint ln \<le> sint line \<Longrightarrow>
     fst (scanLines line ln r reads) = line_at r (nat (sint line - sint ln))"
proof (induction line ln r reads rule: scanLines.induct)
  case (1 line ln r reads)
  obtain cl eof r' where rb: "ReadBytes r = (cl, eof, r')"
    by (cases "ReadBytes r") auto
  have lt: "sint ln < sint line" if "ln \<noteq> line"
    using that "1.prems" by (metis order_le_less signed_word_eqI)
  show ?case
  proof (cases "ln = line")
    case True
    show ?thesis
    proof (cases eof)
      case True
      with rb have "cl = r" "NL \<notin> set r"
        using ReadBytes_eof [of r cl r'] by simp_all
      then show ?thesis
        using rb \<open>ln = line\<close> \<open>eof\<close>
        by (subst scanLines.simps) (simp add: line_at_last_0)
    next
      case False
      with rb obtain l where "cl = l @ [NL]" "NL \<notin> set l" "r = l @ NL # r'"
        using ReadBytes_line [of r cl r'] by auto
      then show ?thesis
        using rb \<open>ln = line\<close> \<open>\<not> eof\<close>
        by (subst scanLines.simps) (simp add: line_at_line_0)
    qed
  next
    case ne: False
    then have lt: "sint ln < sint line"
      by (rule lt)
    then have s: "sint (ln + 1) = sint ln + 1"
      by (rule sint_succ)
    have n: "nat (sint line - sint ln) = Suc (nat (sint line - sint (ln + 1)))"
      using lt s by simp
    show ?thesis
    proof (cases eof)
      case True
      with rb have "NL \<notin> set r"
        using ReadBytes_eof [of r cl r'] by simp
      then show ?thesis
        using rb lt \<open>eof\<close> n
        by (subst scanLines.simps) (simp add: line_at_last_Suc)
    next
      case False
      with rb obtain l where l: "NL \<notin> set l" "r = l @ NL # r'"
        using ReadBytes_line [of r cl r'] by auto
      have "fst (scanLines line (ln + 1) r' (Suc reads)) = line_at r' (nat (sint line - sint (ln + 1)))"
        using "1.IH" [OF rb [symmetric] refl _ ne] False lt s by simp
      then show ?thesis
        using rb False ne l n
        by (subst scanLines.simps) (simp add: line_at_line_Suc)
    qed
  qed
qed

lemma sint_succ':
  fixes ln :: go_int
  assumes "sint ln < 2 ^ 63 - 1"
  shows "sint (ln + 1) = sint ln + 1"
proof -
  have "- (2 ^ 63) \<le> sint ln"
    using sint_ge [of ln] by simp
  then have "signed_take_bit 63 (sint ln + 1) = sint ln + 1"
    using assms by (intro signed_take_bit_int_eq_self) auto
  then show ?thesis
    by (simp add: sint_word_ariths)
qed

lemma scanLines_reads:
  "sint ln \<le> sint line \<Longrightarrow>
     snd (scanLines line ln r reads) \<le> reads + nat (sint line - sint ln) + 1"
proof (induction line ln r reads rule: scanLines.induct)
  case (1 line ln r reads)
  obtain cl eof r' where rb: "ReadBytes r = (cl, eof, r')"
    by (cases "ReadBytes r") auto
  show ?case
  proof (cases "(eof \<and> sint ln < sint line) \<or> ln = line")
    case True
    then show ?thesis
      using rb by (subst scanLines.simps) auto
  next
    case False
    then have ne: "ln \<noteq> line" and ex: "\<not> (eof \<and> sint ln < sint line)"
      by auto
    have lt: "sint ln < sint line"
      using ne "1.prems" by (metis order_le_less signed_word_eqI)
    then have s: "sint (ln + 1) = sint ln + 1"
      by (rule sint_succ)
    have "snd (scanLines line (ln + 1) r' (Suc reads))
        \<le> Suc reads + nat (sint line - sint (ln + 1)) + 1"
      using "1.IH" [OF rb [symmetric] refl ex ne] lt s by simp
    moreover have "nat (sint line - sint ln) = Suc (nat (sint line - sint (ln + 1)))"
      using lt s by simp
    ultimately show ?thesis
      using rb ne ex by (subst scanLines.simps) auto
  qed
qed

lemma file_lines_rest:
  assumes "ReadBytes r = (cl, eof, r')"
  shows "length (file_lines r') \<le> length (file_lines r) - 1"
proof (cases eof)
  case True
  then show ?thesis
    using assms ReadBytes_eof [of r cl r'] by simp
next
  case False
  then obtain l where "NL \<notin> set l" "r = l @ NL # r'"
    using assms ReadBytes_line [of r cl r'] by auto
  then show ?thesis
    by (simp add: file_lines_line)
qed

lemma scanLines_wrap:
  fixes line ln :: go_int
  assumes "sint line \<le> 0" and "1 \<le> sint ln"
    and "int (length (file_lines r)) \<le> 2 ^ 63 - 1 - sint ln"
  shows "scanLines line ln r reads = ([], reads + nat (2 ^ 63 - sint ln) + 1)"
  using assms
proof (induction "nat (2 ^ 63 - 1 - sint ln)" arbitrary: ln r reads)
  case 0
  have "sint ln < 2 ^ 63"
    using sint_lt [of ln] by simp
  with "0.hyps" have mx: "sint ln = 2 ^ 63 - 1"
    by simp
  then have r: "r = []"
    using "0.prems"(3) by (simp add: file_lines_Nil_iff)
  have ne: "ln \<noteq> line"
    using "0.prems"(1,2) by auto
  have nlt: "\<not> sint ln < sint line"
    using "0.prems"(1,2) by simp
  have s: "sint (ln + 1) = - (2 ^ 63)"
    using mx by (rule sint_succ_max)
  have first: "scanLines line ln r reads = scanLines line (ln + 1) [] (Suc reads)"
    using r ne nlt by (subst scanLines.simps) simp
  have "- (2 ^ 63) \<le> sint line"
    using sint_ge [of line] by simp
  then consider "sint (ln + 1) < sint line" | "ln + 1 = line"
    using s by (metis order_le_less signed_word_eqI)
  then have "scanLines line (ln + 1) [] (Suc reads) = ([], Suc (Suc reads))"
  proof cases
    case 1
    then show ?thesis
      by (subst scanLines.simps) simp
  next
    case 2
    then show ?thesis
      by (subst scanLines.simps) simp
  qed
  then show ?case
    using first mx by simp
next
  case (Suc k)
  then have lt: "sint ln < 2 ^ 63 - 1"
    by simp
  then have s: "sint (ln + 1) = sint ln + 1"
    by (rule sint_succ')
  obtain cl eof r' where rb: "ReadBytes r = (cl, eof, r')"
    by (cases "ReadBytes r") auto
  have ne: "ln \<noteq> line"
    using Suc.prems(1,2) by auto
  have nlt: "\<not> sint ln < sint line"
    using Suc.prems(1,2) by simp
  have first: "scanLines line ln r reads = scanLines line (ln + 1) r' (Suc reads)"
    using rb ne nlt by (subst scanLines.simps) simp
  have "int (length (file_lines r')) \<le> 2 ^ 63 - 1 - sint (ln + 1)"
    using file_lines_rest [OF rb] Suc.prems(3) s lt by linarith
  moreover have "k = nat (2 ^ 63 - 1 - sint (ln + 1))"
    using Suc.hyps(2) s by simp
  ultimately have "scanLines line (ln + 1) r' (Suc reads)
      = ([], Suc reads + nat (2 ^ 63 - sint (ln + 1)) + 1)"
    using Suc.hyps(1) [of "ln + 1" r' "Suc reads"] Suc.prems(1,2) s by simp
  moreover have "nat (2 ^ 63 - sint ln) = Suc (nat (2 ^ 63 - sint (ln + 1)))"
    using s lt by simp
  ultimately show ?case
    using first by simp
qed

lemma contentOfLine_result:
  "disk file = Some content \<Longrightarrow> 1 \<le> sint line \<Longrightarrow>
     contentOfLine disk line file = line_at content (nat (sint line - 1))"
  using scanLines_result [of 1 line content 0] by (simp add: contentOfLine_def)

text \<open>
  A line that ends in a newline is returned as it is; the last line of a file that
  does not end in a newline comes back without its last byte.
\<close>

lemma line_at_inner:
  "i < length (file_lines r) \<Longrightarrow> \<not> (Suc i = length (file_lines r) \<and> unterminated r) \<Longrightarrow>
     line_at r i = file_lines r ! i"
  by (auto simp: line_at_def)

lemma line_at_cut:
  "Suc i = length (file_lines r) \<Longrightarrow> unterminated r \<Longrightarrow> line_at r i = butlast (file_lines r ! i)"
  by (auto simp: line_at_def)

lemma contentOfLine_terminated_line:
  assumes "disk file = Some content" and "1 \<le> sint line"
    and "nat (sint line) \<le> length (file_lines content)"
    and "nat (sint line) < length (file_lines content) \<or> \<not> unterminated content"
  shows "contentOfLine disk line file = file_lines content ! nat (sint line - 1)"
proof -
  have "Suc (nat (sint line - 1)) = nat (sint line)"
    using assms(2) by simp
  then have "nat (sint line - 1) < length (file_lines content)"
    and "\<not> (Suc (nat (sint line - 1)) = length (file_lines content) \<and> unterminated content)"
    using assms(3,4) by auto
  then have "line_at content (nat (sint line - 1)) = file_lines content ! nat (sint line - 1)"
    by (rule line_at_inner)
  then show ?thesis
    using contentOfLine_result [of disk "file" content line] assms(1,2) by simp
qed

lemma contentOfLine_unterminated_line:
  assumes "disk file = Some content" and "1 \<le> sint line"
    and "nat (sint line) = length (file_lines content)" and "unterminated content"
  shows "contentOfLine disk line file = butlast (file_lines content ! nat (sint line - 1))"
proof -
  have "Suc (nat (sint line - 1)) = nat (sint line)"
    using assms(2) by simp
  then have "Suc (nat (sint line - 1)) = length (file_lines content)"
    using assms(3) by simp
  then have "line_at content (nat (sint line - 1))
      = butlast (file_lines content ! nat (sint line - 1))"
    using assms(4) by (rule line_at_cut)
  then show ?thesis
    using contentOfLine_result [of disk "file" content line] assms(1,2) by simp
qed

subsection \<open>The record of a tag\<close>

lemma Sprintf_tag_format:
  "Sprintf tag_format [Str tag, Str file, Str content, Rune kind, Str extra]
     = tagRecord tag file content kind extra"
  by (simp add: tag_format_def tagRecord_def TAB_def DQUOTE_def)

lemma emitTag_eq:
  "emitTag disk tag pos fset kind extra tags = tags @ [tagAt disk fset tag pos kind extra]"
  by (simp add: emitTag_def tagAt_def Let_def Sprintf_tag_format)

subsection \<open>Claims on the line resolver\<close>

text \<open>
  C4. The line resolver returns line \<open>n\<close> without its newline, also when line \<open>n\<close> is
  the last line of the file and has no newline. The code does not: on the file
  \<^verbatim>\<open>abc\<close>, whose one line is \<^verbatim>\<open>abc\<close>, the request for line 1 reaches the end of
  the input at the requested line and cuts the last byte of what was read, which is
  no newline; the result is \<^verbatim>\<open>ab\<close>.
\<close>

theorem contentOfLine_unterminated_last_line:
  "file_lines ''abc'' = [''abc''] \<and>
   contentOfLine [''a.go'' \<mapsto> ''abc''] 1 ''a.go'' = ''ab''"
  by (simp add: contentOfLine_def scanLines.simps NL_def)

text \<open>
  C5. When the file of a position cannot be opened, or has fewer lines than the
  requested line number, the resolver returns the empty byte sequence, and
  \<^verbatim>\<open>emitTag\<close> still appends the tag, with the search pattern \<^verbatim>\<open>/^$/\<close> in its five
  fields; \<^verbatim>\<open>emitTag\<close> has no failing branch.
\<close>

theorem line_resolution_failure:
  assumes "case disk (Filename (fset pos)) of
             None \<Rightarrow> True
           | Some content \<Rightarrow>
               1 \<le> sint (Line (fset pos)) \<and>
               int (length (file_lines content)) < sint (Line (fset pos))"
  shows "contentOfLine disk (Line (fset pos)) (Filename (fset pos)) = [] \<and>
         emitTag disk tag pos fset kind extra tags
           = tags @ [joinTabs [tag, Filename (fset pos), ''/^$/;'' @ [DQUOTE], [kind], extra]]"
proof -
  have empty: "contentOfLine disk (Line (fset pos)) (Filename (fset pos)) = []"
  proof (cases "disk (Filename (fset pos))")
    case None
    then show ?thesis
      by (simp add: contentOfLine_def)
  next
    case (Some content)
    with assms have n: "1 \<le> sint (Line (fset pos))"
      and few: "int (length (file_lines content)) < sint (Line (fset pos))"
      by simp_all
    then have "\<not> nat (sint (Line (fset pos)) - 1) < length (file_lines content)"
      by linarith
    then show ?thesis
      using contentOfLine_result [of disk "Filename (fset pos)" content "Line (fset pos)"] Some n
      by (simp add: line_at_def)
  qed
  then show ?thesis
    by (simp add: emitTag_eq tagAt_def tagRecord_def)
qed

theorem line_resolution_failure_witness:
  "emitTag [''a.go'' \<mapsto> ''abc'' @ [NL]] ''f'' 7 (\<lambda>pos. \<lparr>Filename = ''a.go'', Line = 3\<rparr>) FUNC [] []
     = [''f'' @ [TAB] @ ''a.go'' @ [TAB] @ ''/^$/;'' @ [DQUOTE] @ [TAB] @ ''f'' @ [TAB]] \<and>
   emitTag Map.empty ''f'' 7 (\<lambda>pos. \<lparr>Filename = ''a.go'', Line = 1\<rparr>) FUNC [] []
     = [''f'' @ [TAB] @ ''a.go'' @ [TAB] @ ''/^$/;'' @ [DQUOTE] @ [TAB] @ ''f'' @ [TAB]]"
  using line_resolution_failure [where disk = "[''a.go'' \<mapsto> ''abc'' @ [NL]]"
      and fset = "\<lambda>pos. \<lparr>Filename = ''a.go'', Line = 3\<rparr>" and pos = 7 and tag = "''f''"
      and kind = FUNC and extra = "[]" and tags = "[]"]
    line_resolution_failure [where disk = Map.empty
      and fset = "\<lambda>pos. \<lparr>Filename = ''a.go'', Line = 1\<rparr>" and pos = 7 and tag = "''f''"
      and kind = FUNC and extra = "[]" and tags = "[]"]
  by (simp add: NL_def FUNC_def)

text \<open>
  C10, as stated: for a line number \<open>n \<le> 0\<close> neither exit of the loop can hold
  once the end of the input is reached. The counter is a machine integer, of 64
  bits here: at the end of the input and with \<open>n = 0\<close> it wraps around to the least
  integer after \<open>2\<^sup>6\<^sup>3 - 1\<close> increments, which is below 0, and the loop returns the
  empty byte sequence at read number \<open>2\<^sup>6\<^sup>3\<close>.
\<close>

theorem scanLines_line_zero_returns: "scanLines 0 1 [] 0 = ([], 2 ^ 63)"
  using scanLines_wrap [of 0 1 "[]" 0] by simp

text \<open>
  C10, amended: for every file content and every line number \<open>n \<ge> 1\<close> the loop
  returns within \<open>n\<close> reads, at the requested line or at the end of the input. The
  precondition \<open>n \<ge> 1\<close> is necessary for this bound: for \<open>n \<le> 0\<close> neither exit of
  the loop holds, before or after the end of the input, until the counter has
  overflowed; with the 64 bits of \<^verbatim>\<open>int\<close> and on a file of fewer than \<open>2\<^sup>6\<^sup>3 - 1\<close>
  lines the loop returns the empty byte sequence at read number \<open>2\<^sup>6\<^sup>3\<close> and not
  before. The one call site, in \<^verbatim>\<open>emitTag\<close>, runs the loop on the line number of
  the resolved position; since the positions of the table carry 1-based line
  numbers, it satisfies \<open>n \<ge> 1\<close>, and the loop returns there within \<open>n\<close> reads.
\<close>

theorem scanLines_reads_bound:
  "(1 \<le> sint line \<longrightarrow>
      snd (scanLines line 1 r 0) \<le> nat (sint line) \<and>
      fst (scanLines line 1 r 0) = line_at r (nat (sint line - 1))) \<and>
   (sint line \<le> 0 \<and> int (length (file_lines r)) \<le> 2 ^ 63 - 2 \<longrightarrow>
      scanLines line 1 r 0 = ([], 2 ^ 63)) \<and>
   emitTag disk tag pos fset kind extra tags
     = tags @ [tagRecord tag (Filename (fset pos))
                 (contentOfLine disk (Line (fset pos)) (Filename (fset pos))) kind extra] \<and>
   contentOfLine disk n path
     = (case disk path of None \<Rightarrow> [] | Some content \<Rightarrow> fst (scanLines n 1 content 0)) \<and>
   ((\<forall>p. 1 \<le> sint (Line (fset p))) \<longrightarrow>
      1 \<le> sint (Line (fset pos)) \<and>
      snd (scanLines (Line (fset pos)) 1 content 0) \<le> nat (sint (Line (fset pos))))"
proof (intro conjI impI)
  assume "1 \<le> sint line"
  then show "snd (scanLines line 1 r 0) \<le> nat (sint line)"
    using scanLines_reads [of 1 line r 0] by simp
next
  assume "1 \<le> sint line"
  then show "fst (scanLines line 1 r 0) = line_at r (nat (sint line - 1))"
    using scanLines_result [of 1 line r 0] by simp
next
  assume "sint line \<le> 0 \<and> int (length (file_lines r)) \<le> 2 ^ 63 - 2"
  then show "scanLines line 1 r 0 = ([], 2 ^ 63)"
    using scanLines_wrap [of line 1 r 0] by simp
next
  show "emitTag disk tag pos fset kind extra tags
      = tags @ [tagRecord tag (Filename (fset pos))
                  (contentOfLine disk (Line (fset pos)) (Filename (fset pos))) kind extra]"
    by (simp add: emitTag_eq tagAt_def)
next
  show "contentOfLine disk n path
      = (case disk path of None \<Rightarrow> [] | Some content \<Rightarrow> fst (scanLines n 1 content 0))"
    by (simp add: contentOfLine_def)
next
  assume one_based: "\<forall>p. 1 \<le> sint (Line (fset p))"
  then show "1 \<le> sint (Line (fset pos))"
    by blast
  then show "snd (scanLines (Line (fset pos)) 1 content 0) \<le> nat (sint (Line (fset pos)))"
    using scanLines_reads [of 1 "Line (fset pos)" content 0] by simp
qed

theorem scanLines_reads_bound_witness:
  "snd (scanLines 2 1 (''abc'' @ [NL] @ ''de'' @ [NL]) 0) \<le> 2 \<and>
   fst (scanLines 2 1 (''abc'' @ [NL] @ ''de'' @ [NL]) 0) = ''de'' \<and>
   scanLines (- 1) 1 ''abc'' 0 = ([], 2 ^ 63) \<and>
   snd (scanLines (Line \<lparr>Filename = ''a.go'', Line = 1\<rparr>) 1 (''abc'' @ [NL]) 0) \<le> 1"
proof -
  note t = scanLines_reads_bound [where line = 2 and r = "''abc'' @ [NL] @ ''de'' @ [NL]"
      and fset = "\<lambda>pos. \<lparr>Filename = ''a.go'', Line = 1\<rparr>" and pos = 7
      and content = "''abc'' @ [NL]"]
  note u = scanLines_reads_bound [where line = "- 1" and r = "''abc''"]
  have "snd (scanLines 2 1 (''abc'' @ [NL] @ ''de'' @ [NL]) 0) \<le> nat (sint (2 :: go_int)) \<and>
      fst (scanLines 2 1 (''abc'' @ [NL] @ ''de'' @ [NL]) 0)
        = line_at (''abc'' @ [NL] @ ''de'' @ [NL]) (nat (sint (2 :: go_int) - 1))"
    by (rule t [THEN conjunct1, THEN mp]) simp
  moreover have "line_at (''abc'' @ [NL] @ ''de'' @ [NL]) (nat (sint (2 :: go_int) - 1)) = ''de''"
    by (simp add: line_at_def unterminated_def NL_def)
  ultimately have a: "snd (scanLines 2 1 (''abc'' @ [NL] @ ''de'' @ [NL]) 0) \<le> 2"
    and a': "fst (scanLines 2 1 (''abc'' @ [NL] @ ''de'' @ [NL]) 0) = ''de''"
    by simp_all
  have b: "scanLines (- 1) 1 ''abc'' 0 = ([], 2 ^ 63)"
    by (rule u [THEN conjunct2, THEN conjunct1, THEN mp]) (simp add: NL_def)
  have "1 \<le> sint (Line \<lparr>Filename = ''a.go'', Line = 1 :: go_int\<rparr>) \<and>
      snd (scanLines (Line \<lparr>Filename = ''a.go'', Line = 1\<rparr>) 1 (''abc'' @ [NL]) 0)
        \<le> nat (sint (Line \<lparr>Filename = ''a.go'', Line = 1 :: go_int\<rparr>))"
    by (rule t [THEN conjunct2, THEN conjunct2, THEN conjunct2, THEN conjunct2, THEN mp]) simp
  then have c: "snd (scanLines (Line \<lparr>Filename = ''a.go'', Line = 1\<rparr>) 1 (''abc'' @ [NL]) 0) \<le> 1"
    by simp
  show ?thesis
    using a a' b c by (simp only: simp_thms)
qed

subsection \<open>The sample run, evaluated\<close>

lemma sample_pkgs:
  "parseFiles sample_ParseFile [''q.go'', ''bad.go'', ''p.go'']
     = ([(''q'', Package ''q'' [(''q.go'', sample_q)]), (''p'', Package ''p'' [(''p.go'', sample_p)])],
        Some ''expected declaration'')"
  by (simp add: parseFiles_def sample_ParseFile_def sample_q_def sample_p_def Let_def)

lemma sample_q_tags:
  "handleDecls sample_disk sample_fset (Decls sample_q) tags = Inr (tags @ [sample_tags ! 1, sample_tags ! 0])"
  by (simp add: sample_q_def emitTag_eq tagAt_def tagRecord_def sample_fset_def sample_disk_def
      contentOfLine_def scanLines.simps NL_def TAB_def CLASS_def FUNC_def sample_tags_def)

lemma sample_p_tags:
  "handleDecls sample_disk sample_fset (Decls sample_p) tags
     = Inr (tags @ [sample_tags ! 3, sample_tags ! 5, sample_tags ! 2, sample_tags ! 4])"
  by (simp add: sample_p_def emitTag_eq tagAt_def tagRecord_def sample_fset_def sample_disk_def
      contentOfLine_def scanLines.simps NL_def TAB_def STRUCT_def MEMBER_def FUNC_def VAR_def valueKind_def
      typeName.simps stripStar_def sample_tags_def)

lemma sample_sort:
  "sort [sample_tags ! 1, sample_tags ! 0, sample_tags ! 3, sample_tags ! 5, sample_tags ! 2, sample_tags ! 4]
     = sample_tags"
  unfolding sample_tags_def by (simp add: less_eq_char_def less_char_def)

lemma sample_main:
  "main sample_disk sample_fset sample_ParseFile [''q.go'', ''bad.go'', ''p.go''] id id
     = Inr (printTagsHeader @ sample_tags)"
proof -
  have "rangePkgs sample_disk sample_fset id
          [(''q'', Package ''q'' [(''q.go'', sample_q)]), (''p'', Package ''p'' [(''p.go'', sample_p)])] []
      = Inr [sample_tags ! 1, sample_tags ! 0, sample_tags ! 3, sample_tags ! 5, sample_tags ! 2, sample_tags ! 4]"
    by (simp add: sample_q_tags sample_p_tags)
  then show ?thesis
    by (simp only: main_def sample_pkgs prod.case sum.case id_apply sample_sort)
qed

lemma sample_tagAt:
  "tagAt sample_disk sample_fset ''T'' 208 STRUCT [] = sample_tags ! 3"
  "tagAt sample_disk sample_fset ''X'' 302 MEMBER ''struct:T'' = sample_tags ! 5"
  "tagAt sample_disk sample_fset ''M'' 501 FUNC ''class:T'' = sample_tags ! 2"
  "tagAt sample_disk sample_fset ''V'' 605 VAR [] = sample_tags ! 4"
  "tagAt sample_disk sample_fset ''I'' 1208 CLASS [] = sample_tags ! 1"
  "tagAt sample_disk sample_fset ''F'' 1302 FUNC ''class:I'' = sample_tags ! 0"
  by (simp_all add: tagAt_def tagRecord_def sample_fset_def sample_disk_def
      contentOfLine_def scanLines.simps NL_def TAB_def STRUCT_def MEMBER_def FUNC_def VAR_def CLASS_def
      sample_tags_def)

subsection \<open>Claims on the tag record and the classifier\<close>

text \<open>
  C6. Every call of \<^verbatim>\<open>emitTag\<close> appends one record: the five fields name, file
  path, \<^verbatim>\<open>/^\<close> followed by the resolved line as it is and by \<^verbatim>\<open>$/;"\<close>, the kind
  character and the scope, in this order and separated by single tabs. With the
  empty scope the record ends in the tab after the kind: the fifth field is there,
  and empty.
\<close>

theorem emitTag_record:
  "emitTag disk tag pos fset kind extra tags
     = tags @ [joinTabs [tag, Filename (fset pos),
                 ''/^'' @ contentOfLine disk (Line (fset pos)) (Filename (fset pos)) @ ''$/;'' @ [DQUOTE],
                 [kind], extra]] \<and>
   emitTag disk tag pos fset kind [] tags
     = tags @ [tag @ [TAB] @ Filename (fset pos) @ [TAB] @
                 ''/^'' @ contentOfLine disk (Line (fset pos)) (Filename (fset pos)) @ ''$/;'' @ [DQUOTE] @
                 [TAB] @ [kind] @ [TAB]] \<and>
   length (emitTag disk tag pos fset kind extra tags) = Suc (length tags)"
  by (simp add: emitTag_eq tagAt_def tagRecord_def)

lemma typeName_Ident: "typeName (IdentExpr t) = Name t"
  by (simp add: typeName.simps stripStar_def)

lemma typeName_Selector: "typeName (SelectorExpr x sel) = typeName x @ ''.'' @ Name sel"
  by (subst typeName.simps) (simp add: stripStar_def)

lemma typeName_Star:
  "typeName (StarExpr star x) =
     (case x of IdentExpr t \<Rightarrow> Name t
      | SelectorExpr y sel \<Rightarrow> typeName y @ ''.'' @ Name sel
      | _ \<Rightarrow> [])"
  by (subst typeName.simps) (simp add: stripStar_def)

lemma typeName_chain: "typeName (selectorChain a bs) = dottedName a bs"
proof (induction bs rule: rev_induct)
  case Nil
  then show ?case
    by (simp add: selectorChain_def dottedName_def typeName_Ident)
next
  case (snoc b bs)
  then show ?case
    by (simp add: selectorChain_def dottedName_def typeName_Selector)
qed

lemma typeName_pointer:
  assumes "\<forall>star x. T \<noteq> StarExpr star x"
  shows "typeName (StarExpr star T) = typeName T"
proof (cases T)
  case (StarExpr s x)
  with assms show ?thesis by simp
qed (simp_all add: typeName_Star typeName_Ident typeName_Selector typeName.simps [of "StructType _ _"]
      typeName.simps [of "InterfaceType _ _"] typeName.simps [of "OtherExpr _"] stripStar_def)

text \<open>
  C1, as stated: every function declaration yields one tag. A declaration whose
  receiver field list is there and empty makes \<^verbatim>\<open>decl.Recv.List[0]\<close> panic, and no
  tag is emitted.
\<close>

theorem funcDecl_empty_receiver_list:
  "funcDecl sample_disk sample_fset (FuncDecl (Some []) (Ident 513 ''M'') 501) [] = Inl IndexOutOfRange"
  by simp

text \<open>
  C1, amended: a function declaration with no receiver yields one tag of kind
  \<^verbatim>\<open>f\<close> with the empty scope; one whose receiver list has a first entry yields one
  tag of kind \<^verbatim>\<open>f\<close> with the scope \<^verbatim>\<open>class:\<close> and the type name of that entry.
  The type name of an identifier is its name, that of a selector chain on an
  identifier is the chain joined by dots, to any depth, and a pointer to a type
  that is not itself a pointer has the type name of that type.
\<close>

theorem funcDecl_tag:
  "funcDecl disk fset (FuncDecl None name pos) tags
     = Inr (tags @ [tagAt disk fset (Name name) pos FUNC []]) \<and>
   funcDecl disk fset (FuncDecl (Some (f # fs)) name pos) tags
     = Inr (tags @ [tagAt disk fset (Name name) pos FUNC (''class:'' @ typeName (Type f))]) \<and>
   typeName (IdentExpr t) = Name t \<and>
   typeName (selectorChain a bs) = dottedName a bs \<and>
   ((\<forall>star x. T \<noteq> StarExpr star x) \<longrightarrow> typeName (StarExpr star' T) = typeName T)"
  by (simp add: emitTag_eq typeName_Ident typeName_chain typeName_pointer)

theorem funcDecl_tag_witness:
  "funcDecl sample_disk sample_fset
       (FuncDecl (Some [AField [Ident 507 ''t''] (StarExpr 509 (IdentExpr (Ident 510 ''T'')))])
          (Ident 513 ''M'') 501) []
     = Inr [sample_tags ! 2] \<and>
   typeName (StarExpr 509 (IdentExpr (Ident 510 ''T''))) = ''T''"
proof -
  note t = funcDecl_tag [where disk = sample_disk and fset = sample_fset and tags = "[]"
      and name = "Ident 513 ''M''" and pos = 501
      and f = "AField [Ident 507 ''t''] (StarExpr 509 (IdentExpr (Ident 510 ''T'')))" and fs = "[]"
      and T = "IdentExpr (Ident 510 ''T'')" and star' = 509 and t = "Ident 510 ''T''"]
  have "typeName (StarExpr 509 (IdentExpr (Ident 510 ''T''))) = typeName (IdentExpr (Ident 510 ''T''))"
    by (rule t [THEN conjunct2, THEN conjunct2, THEN conjunct2, THEN conjunct2, THEN mp]) simp
  also have "\<dots> = Name (Ident 510 ''T'')"
    by (rule t [THEN conjunct2, THEN conjunct2, THEN conjunct1])
  finally have n: "typeName (StarExpr 509 (IdentExpr (Ident 510 ''T''))) = ''T''"
    by simp
  have "funcDecl sample_disk sample_fset
       (FuncDecl (Some [AField [Ident 507 ''t''] (StarExpr 509 (IdentExpr (Ident 510 ''T'')))])
          (Ident 513 ''M'') 501) []
     = Inr ([] @ [tagAt sample_disk sample_fset (Name (Ident 513 ''M'')) 501 FUNC
          (''class:'' @ typeName (Type (AField [Ident 507 ''t''] (StarExpr 509 (IdentExpr (Ident 510 ''T''))))))])"
    by (rule t [THEN conjunct2, THEN conjunct1])
  also have "\<dots> = Inr [sample_tags ! 2]"
    using n by (simp add: sample_tagAt)
  finally show ?thesis
    using n by (simp only: simp_thms)
qed

lemma fold_emitTag:
  "fold (\<lambda>m. emitTag disk (Name m) (NamePos m) fset kind extra) ms tags
     = tags @ map (\<lambda>m. tagAt disk fset (Name m) (NamePos m) kind extra) ms"
  by (induction ms arbitrary: tags) (simp_all add: emitTag_eq)

lemma fold_fields:
  "fold (\<lambda>f. fold (\<lambda>m. emitTag disk (Name m) (NamePos m) fset kind extra) (Names f)) flds tags
     = tags @ map (\<lambda>m. tagAt disk fset (Name m) (NamePos m) kind extra) (concat (map Names flds))"
  by (induction flds arbitrary: tags) (simp_all add: fold_emitTag)

lemma Sprintf_scope:
  "Sprintf ''struct:%s'' [Str s] = ''struct:'' @ s" "Sprintf ''class:%s'' [Str s] = ''class:'' @ s"
  by simp_all

lemma typeSpec_struct:
  "typeSpec disk fset (TypeSpec name (StructType p flds)) tags
     = tags @ tagAt disk fset (Name name) p STRUCT []
         # map (\<lambda>m. tagAt disk fset (Name m) (NamePos m) MEMBER (''struct:'' @ Name name))
             (concat (map Names flds))"
  by (simp add: fold_fields emitTag_eq)

lemma typeSpec_interface:
  "typeSpec disk fset (TypeSpec name (InterfaceType p methods)) tags
     = tags @ tagAt disk fset (Name name) p CLASS []
         # map (\<lambda>m. tagAt disk fset (Name m) (NamePos m) FUNC (''class:'' @ Name name))
             (concat (map Names methods))"
  by (simp add: fold_fields emitTag_eq)

lemma typeSpec_other:
  assumes "\<forall>p flds. ty \<noteq> StructType p flds" and "\<forall>p methods. ty \<noteq> InterfaceType p methods"
  shows "typeSpec disk fset (TypeSpec name ty) tags
     = tags @ [tagAt disk fset (Name name) (Expr_Pos ty) TYPE_kind []]"
  using assms by (cases ty) (simp_all add: emitTag_eq)

text \<open>
  C2. A type declaration of a struct type yields one tag of kind \<^verbatim>\<open>s\<close> and then
  one tag of kind \<^verbatim>\<open>m\<close> with the scope \<^verbatim>\<open>struct:\<close> and the type's name for every
  name of every field group; an interface type yields one tag of kind \<^verbatim>\<open>c\<close> and one
  of kind \<^verbatim>\<open>f\<close> with the scope \<^verbatim>\<open>class:\<close> and the type's name for every name of
  every method group; every other type expression yields one tag of kind \<^verbatim>\<open>t\<close>
  with the empty scope. A group without names adds nothing.
\<close>

theorem typeSpec_tags:
  "typeSpec disk fset (TypeSpec name (StructType p flds)) tags
     = tags @ tagAt disk fset (Name name) p STRUCT []
         # map (\<lambda>m. tagAt disk fset (Name m) (NamePos m) MEMBER (''struct:'' @ Name name))
             (concat (map Names flds)) \<and>
   typeSpec disk fset (TypeSpec name (InterfaceType p flds)) tags
     = tags @ tagAt disk fset (Name name) p CLASS []
         # map (\<lambda>m. tagAt disk fset (Name m) (NamePos m) FUNC (''class:'' @ Name name))
             (concat (map Names flds)) \<and>
   length (typeSpec disk fset (TypeSpec name (StructType p flds)) tags)
     = length tags + 1 + (\<Sum>f\<leftarrow>flds. length (Names f)) \<and>
   length (typeSpec disk fset (TypeSpec name (InterfaceType p flds)) tags)
     = length tags + 1 + (\<Sum>f\<leftarrow>flds. length (Names f)) \<and>
   ((\<forall>p flds. ty \<noteq> StructType p flds) \<and> (\<forall>p flds. ty \<noteq> InterfaceType p flds) \<longrightarrow>
      typeSpec disk fset (TypeSpec name ty) tags
        = tags @ [tagAt disk fset (Name name) (Expr_Pos ty) TYPE_kind []]) \<and>
   (Names g = [] \<longrightarrow>
      typeSpec disk fset (TypeSpec name (StructType p (flds @ g # flds'))) tags
        = typeSpec disk fset (TypeSpec name (StructType p (flds @ flds'))) tags \<and>
      typeSpec disk fset (TypeSpec name (InterfaceType p (flds @ g # flds'))) tags
        = typeSpec disk fset (TypeSpec name (InterfaceType p (flds @ flds'))) tags)"
proof (intro conjI impI)
  show "typeSpec disk fset (TypeSpec name (StructType p flds)) tags
     = tags @ tagAt disk fset (Name name) p STRUCT []
         # map (\<lambda>m. tagAt disk fset (Name m) (NamePos m) MEMBER (''struct:'' @ Name name))
             (concat (map Names flds))"
    by (rule typeSpec_struct)
  show "typeSpec disk fset (TypeSpec name (InterfaceType p flds)) tags
     = tags @ tagAt disk fset (Name name) p CLASS []
         # map (\<lambda>m. tagAt disk fset (Name m) (NamePos m) FUNC (''class:'' @ Name name))
             (concat (map Names flds))"
    by (rule typeSpec_interface)
  show "length (typeSpec disk fset (TypeSpec name (StructType p flds)) tags)
     = length tags + 1 + (\<Sum>f\<leftarrow>flds. length (Names f))"
    unfolding typeSpec_struct by (simp add: length_concat comp_def)
  show "length (typeSpec disk fset (TypeSpec name (InterfaceType p flds)) tags)
     = length tags + 1 + (\<Sum>f\<leftarrow>flds. length (Names f))"
    unfolding typeSpec_interface by (simp add: length_concat comp_def)
next
  assume "(\<forall>p flds. ty \<noteq> StructType p flds) \<and> (\<forall>p flds. ty \<noteq> InterfaceType p flds)"
  then show "typeSpec disk fset (TypeSpec name ty) tags
      = tags @ [tagAt disk fset (Name name) (Expr_Pos ty) TYPE_kind []]"
    using typeSpec_other [of ty disk fset name tags] by blast
next
  assume "Names g = []"
  then show "typeSpec disk fset (TypeSpec name (StructType p (flds @ g # flds'))) tags
      = typeSpec disk fset (TypeSpec name (StructType p (flds @ flds'))) tags"
    unfolding typeSpec_struct by simp
next
  assume "Names g = []"
  then show "typeSpec disk fset (TypeSpec name (InterfaceType p (flds @ g # flds'))) tags
      = typeSpec disk fset (TypeSpec name (InterfaceType p (flds @ flds'))) tags"
    unfolding typeSpec_interface by simp
qed

theorem typeSpec_tags_witness:
  "typeSpec sample_disk sample_fset
       (TypeSpec (Ident 206 ''T'')
          (StructType 208 [AField [] (IdentExpr (Ident 303 ''E'')),
                           AField [Ident 302 ''X''] (IdentExpr (Ident 304 ''int''))])) []
     = [sample_tags ! 3, sample_tags ! 5] \<and>
   typeSpec sample_disk sample_fset (TypeSpec (Ident 1206 ''I'') (IdentExpr (Ident 1208 ''int''))) []
     = [''I'' @ [TAB] @ ''q.go'' @ [TAB] @ ''/^type I interface {$/;'' @ [DQUOTE] @ [TAB] @ ''t'' @ [TAB]]"
proof -
  note t = typeSpec_tags [where disk = sample_disk and fset = sample_fset and tags = "[]"
      and name = "Ident 206 ''T''" and p = 208 and flds = "[]"
      and g = "AField [] (IdentExpr (Ident 303 ''E''))"
      and flds' = "[AField [Ident 302 ''X''] (IdentExpr (Ident 304 ''int''))]"
      and ty = "IdentExpr (Ident 1208 ''int'')"]
  note u = typeSpec_tags [where disk = sample_disk and fset = sample_fset and tags = "[]"
      and name = "Ident 1206 ''I''" and ty = "IdentExpr (Ident 1208 ''int'')"]
  have "typeSpec sample_disk sample_fset
       (TypeSpec (Ident 206 ''T'')
          (StructType 208 ([] @ AField [] (IdentExpr (Ident 303 ''E'')) #
                           [AField [Ident 302 ''X''] (IdentExpr (Ident 304 ''int''))]))) []
     = typeSpec sample_disk sample_fset
       (TypeSpec (Ident 206 ''T'')
          (StructType 208 ([] @ [AField [Ident 302 ''X''] (IdentExpr (Ident 304 ''int''))]))) []"
    by (rule t [THEN conjunct2, THEN conjunct2, THEN conjunct2, THEN conjunct2, THEN conjunct2,
          THEN mp, THEN conjunct1]) simp
  also have "\<dots> = [sample_tags ! 3, sample_tags ! 5]"
    by (simp add: emitTag_eq sample_tagAt)
  finally have a: "typeSpec sample_disk sample_fset
       (TypeSpec (Ident 206 ''T'')
          (StructType 208 [AField [] (IdentExpr (Ident 303 ''E'')),
                           AField [Ident 302 ''X''] (IdentExpr (Ident 304 ''int''))])) []
     = [sample_tags ! 3, sample_tags ! 5]"
    by (simp only: append_Nil)
  have "typeSpec sample_disk sample_fset (TypeSpec (Ident 1206 ''I'') (IdentExpr (Ident 1208 ''int''))) []
     = [] @ [tagAt sample_disk sample_fset (Name (Ident 1206 ''I'')) (Expr_Pos (IdentExpr (Ident 1208 ''int''))) TYPE_kind []]"
    by (rule u [THEN conjunct2, THEN conjunct2, THEN conjunct2, THEN conjunct2, THEN conjunct1,
          THEN mp]) simp
  also have "\<dots> = [''I'' @ [TAB] @ ''q.go'' @ [TAB] @ ''/^type I interface {$/;'' @ [DQUOTE] @ [TAB] @ ''t'' @ [TAB]]"
    by (simp add: tagAt_def tagRecord_def sample_fset_def sample_disk_def
      contentOfLine_def scanLines.simps NL_def TAB_def TYPE_kind_def)
  finally show ?thesis
    using a by (simp only: simp_thms)
qed

subsection \<open>Accumulating the tags\<close>

text \<open>
  Every function of the classifier appends to the tags it is given, and whether it
  panics does not depend on them.
\<close>

lemma panic_eq: "(p :: panic) = IndexOutOfRange"
  by (cases p) simp

lemma typeSpec_append: "typeSpec disk fset ts tags = tags @ typeSpec disk fset ts []"
proof (cases ts)
  case (TypeSpec name ty)
  then show ?thesis
    by (cases ty) (simp_all add: fold_fields emitTag_eq)
qed

lemma fold_append:
  assumes "\<And>x tags. g x tags = tags @ g x []"
  shows "fold g xs tags = tags @ fold g xs []"
proof (induction xs arbitrary: tags)
  case Nil
  then show ?case by simp
next
  case (Cons x xs)
  have "fold g (x # xs) tags = fold g xs (g x tags)"
    by simp
  also have "\<dots> = g x tags @ fold g xs []"
    by (rule Cons.IH)
  also have "\<dots> = tags @ g x [] @ fold g xs []"
    by (subst assms) simp
  also have "g x [] @ fold g xs [] = fold g xs (g x [])"
    by (rule Cons.IH [symmetric])
  finally show ?case by simp
qed

lemma genDecl_append: "genDecl disk fset d tags = tags @ genDecl disk fset d []"
proof (cases d)
  case (GenDecl tok specs)
  have "fold (\<lambda>spec tags.
             case spec of
               TypeSpecNode nt \<Rightarrow> typeSpec disk fset nt tags
             | ValueSpec names \<Rightarrow>
                 fold (\<lambda>ident. emitTag disk (Name ident) (NamePos ident) fset (valueKind tok) []) names tags
             | _ \<Rightarrow> tags) specs tags
      = tags @ fold (\<lambda>spec tags.
             case spec of
               TypeSpecNode nt \<Rightarrow> typeSpec disk fset nt tags
             | ValueSpec names \<Rightarrow>
                 fold (\<lambda>ident. emitTag disk (Name ident) (NamePos ident) fset (valueKind tok) []) names tags
             | _ \<Rightarrow> tags) specs []"
  proof (rule fold_append)
    fix x :: Spec and tags :: "string list"
    show "(case x of
             TypeSpecNode nt \<Rightarrow> typeSpec disk fset nt tags
           | ValueSpec names \<Rightarrow>
               fold (\<lambda>ident. emitTag disk (Name ident) (NamePos ident) fset (valueKind tok) []) names tags
           | _ \<Rightarrow> tags)
        = tags @ (case x of
             TypeSpecNode nt \<Rightarrow> typeSpec disk fset nt []
           | ValueSpec names \<Rightarrow>
               fold (\<lambda>ident. emitTag disk (Name ident) (NamePos ident) fset (valueKind tok) []) names []
           | _ \<Rightarrow> [])"
      by (cases x) (simp_all add: typeSpec_append [of _ _ _ tags] fold_emitTag del: typeSpec.simps)
  qed
  with GenDecl show ?thesis by simp
qed

lemma funcDecl_append:
  "funcDecl disk fset d tags = map_sum id ((@) tags) (funcDecl disk fset d [])"
proof (cases d)
  case (FuncDecl recv name pos)
  then show ?thesis
    by (auto simp: emitTag_eq split: option.splits list.splits)
qed

lemma handleDecls_append:
  "handleDecls disk fset decls tags = map_sum id ((@) tags) (handleDecls disk fset decls [])"
proof (induction decls arbitrary: tags)
  case Nil
  then show ?case by simp
next
  case (Cons decl decls)
  show ?case
  proof (cases decl)
    case BadDecl
    then show ?thesis
      using Cons.IH [of tags] by simp
  next
    case (FuncDeclNode d)
    show ?thesis
    proof (cases "funcDecl disk fset d []")
      case (Inl p)
      then show ?thesis
        using FuncDeclNode funcDecl_append [of disk fset d tags] by simp
    next
      case (Inr ts)
      then have "funcDecl disk fset d tags = Inr (tags @ ts)"
        using funcDecl_append [of disk fset d tags] by simp
      then show ?thesis
        using FuncDeclNode Inr Cons.IH [of "tags @ ts"] Cons.IH [of ts]
        by (cases "handleDecls disk fset decls []") simp_all
    qed
  next
    case (GenDeclNode d)
    then show ?thesis
      using Cons.IH [of "genDecl disk fset d tags"] Cons.IH [of "genDecl disk fset d []"]
        genDecl_append [of disk fset d tags]
      by (cases "handleDecls disk fset decls []") simp_all
  qed
qed

subsection \<open>The order of the traversal\<close>

lemma rangeFiles_result:
  "rangeFiles disk fset fs tags =
     (if \<exists>f\<in>set fs. isl (handleDecls disk fset (Decls (snd f)) []) then Inl IndexOutOfRange
      else Inr (tags @ concat (map (\<lambda>f. projr (handleDecls disk fset (Decls (snd f)) [])) fs)))"
proof (induction fs arbitrary: tags)
  case Nil
  then show ?case by simp
next
  case (Cons f fs)
  obtain filename src where f: "f = (filename, src)"
    by (cases f)
  show ?case
  proof (cases "handleDecls disk fset (Decls src) []")
    case (Inl p)
    then have "handleDecls disk fset (Decls src) tags = Inl IndexOutOfRange"
      using handleDecls_append [of disk fset "Decls src" tags] panic_eq [of p] by simp
    then show ?thesis
      using f Inl by simp
  next
    case (Inr ts)
    then have "handleDecls disk fset (Decls src) tags = Inr (tags @ ts)"
      using handleDecls_append [of disk fset "Decls src" tags] by simp
    then show ?thesis
      using f Inr Cons.IH [of "tags @ ts"] by simp
  qed
qed

lemma rangeFiles_append:
  "rangeFiles disk fset (xs @ ys) tags =
     (case rangeFiles disk fset xs tags of Inl p \<Rightarrow> Inl p | Inr tags' \<Rightarrow> rangeFiles disk fset ys tags')"
proof (induction xs arbitrary: tags)
  case Nil
  then show ?case by simp
next
  case (Cons x xs)
  obtain filename src where "x = (filename, src)"
    by (cases x)
  then show ?case
    using Cons.IH by (simp split: sum.splits)
qed

lemma rangePkgs_flat:
  "rangePkgs disk fset fileOrder ps tags
     = rangeFiles disk fset (concat (map (\<lambda>p. fileOrder (Files (snd p))) ps)) tags"
proof (induction ps arbitrary: tags)
  case Nil
  then show ?case by simp
next
  case (Cons p ps)
  obtain name pkg where "p = (name, pkg)"
    by (cases p)
  then show ?case
    using Cons.IH by (simp add: rangeFiles_append split: sum.splits)
qed

lemma mset_concat_map: "mset (concat (map g xs)) = (\<Sum>x\<in>#mset xs. mset (g x))"
  by (induction xs) simp_all

lemma visited_mset:
  assumes "iteration_order pkgOrder" and "iteration_order fileOrder"
  shows "mset (concat (map (\<lambda>p. fileOrder (Files (snd p))) (pkgOrder pkgs)))
       = mset (concat (map (\<lambda>p. Files (snd p)) pkgs))"
proof -
  have "mset (pkgOrder pkgs) = mset pkgs" and "\<And>m. mset (fileOrder m) = mset m"
    using assms by (simp_all add: iteration_order_def)
  then show ?thesis
    by (simp add: mset_concat_map)
qed

lemma rangeFiles_sorted_perm:
  assumes "mset xs = mset ys"
  shows "(case rangeFiles disk fset xs [] of Inl p \<Rightarrow> Inl p | Inr tags \<Rightarrow> Inr (h @ sort tags))
       = (case rangeFiles disk fset ys [] of Inl p \<Rightarrow> Inl p | Inr tags \<Rightarrow> Inr (h @ sort tags))"
proof -
  let ?g = "\<lambda>f. projr (handleDecls disk fset (Decls (snd f)) [])"
  have "set xs = set ys"
    using assms by (rule mset_eq_setD)
  moreover have "mset (concat (map ?g xs)) = mset (concat (map ?g ys))"
    using assms by (simp add: mset_concat_map)
  then have "sort (concat (map ?g xs)) = sort (concat (map ?g ys))"
    by (intro properties_for_sort) simp_all
  ultimately show ?thesis
    by (simp add: rangeFiles_result)
qed

lemma main_any_order:
  assumes "iteration_order pkgOrder" and "iteration_order fileOrder"
  shows "main disk fset ParseFile files pkgOrder fileOrder
       = (case rangeFiles disk fset (concat (map (\<lambda>p. Files (snd p)) (fst (parseFiles ParseFile files)))) [] of
            Inl p \<Rightarrow> Inl p
          | Inr tags \<Rightarrow> Inr (printTagsHeader @ sort tags))"
  using rangeFiles_sorted_perm [OF visited_mset [OF assms]]
  by (simp add: main_def rangePkgs_flat split: prod.splits)

lemma le_string_bytewise:
  "([] :: string) \<le> ys" "\<not> c # cs \<le> ([] :: string)"
  "(c # cs \<le> d # ds) = ((of_char c :: nat) < of_char d \<or> c = d \<and> cs \<le> ds)"
  by (simp_all add: less_char_def)

lemma main_fst:
  "main disk fset P files pkgOrder fileOrder
     = (case rangePkgs disk fset fileOrder (pkgOrder (fst (parseFiles P files))) [] of
          Inl p \<Rightarrow> Inl p
        | Inr tags \<Rightarrow> Inr (printTagsHeader @ sort tags))"
  by (simp add: main_def split: prod.splits)

lemma parseLoop_skip:
  "fst (parseLoop P files pkgs first)
     = fst (parseLoop P (filter (\<lambda>f. \<not> isl (P f)) files) pkgs first')"
proof (induction files arbitrary: pkgs first first')
  case Nil
  then show ?case by simp
next
  case (Cons f files)
  show ?case
  proof (cases "P f")
    case (Inl err)
    then show ?thesis
      using Cons.IH [of pkgs "if first = None then Some err else first" first'] by simp
  next
    case (Inr src)
    then show ?thesis
      using Cons.IH by (simp add: Let_def)
  qed
qed

lemma parseLoop_first:
  "snd (parseLoop P files pkgs first)
     = (case first of Some err \<Rightarrow> Some err | None \<Rightarrow> firstFailure P files)"
proof (induction files arbitrary: pkgs first)
  case Nil
  then show ?case by (simp split: option.splits)
next
  case (Cons f files)
  then show ?case
    by (cases "P f") (simp_all add: Let_def split: option.splits)
qed

subsection \<open>Claims on the run\<close>

text \<open>
  C3. In the output of a run the five header lines come first, and the tag lines
  after them are sorted: for all positions \<open>i < j\<close> of the tag body, line \<open>i\<close> is at
  most line \<open>j\<close> in the lexicographic order of their bytes (lemma
  \<open>le_string_bytewise\<close>).
\<close>

theorem main_sorted:
  assumes "main disk fset ParseFile files pkgOrder fileOrder = Inr out"
  shows "take 5 out = printTagsHeader \<and> sorted (drop 5 out) \<and>
         (\<forall>i j. i < j \<and> j < length (drop 5 out) \<longrightarrow> drop 5 out ! i \<le> drop 5 out ! j)"
proof -
  obtain tags where out: "out = printTagsHeader @ sort tags"
    using assms by (auto simp: main_def split: prod.splits sum.splits)
  have len: "length printTagsHeader = 5"
    by (simp add: printTagsHeader_def)
  have "take 5 out = printTagsHeader" and body: "drop 5 out = sort tags"
    using out len by simp_all
  moreover have "sorted (drop 5 out)"
    using body by simp
  moreover have "\<forall>i j. i < j \<and> j < length (drop 5 out) \<longrightarrow> drop 5 out ! i \<le> drop 5 out ! j"
    using \<open>sorted (drop 5 out)\<close> by (auto simp: sorted_iff_nth_mono)
  ultimately show ?thesis by simp
qed

theorem main_sorted_witness:
  "main sample_disk sample_fset sample_ParseFile [''q.go'', ''bad.go'', ''p.go''] id id
     = Inr (printTagsHeader @ sample_tags) \<and>
   drop 5 (printTagsHeader @ sample_tags) = sample_tags \<and>
   sample_tags ! 1 \<le> sample_tags ! 4"
proof -
  note s = main_sorted [OF sample_main]
  have body: "drop 5 (printTagsHeader @ sample_tags) = sample_tags"
    by (simp add: printTagsHeader_def)
  have "(1 :: nat) < 4 \<and> 4 < length (drop 5 (printTagsHeader @ sample_tags))"
    by (simp add: printTagsHeader_def sample_tags_def)
  then have "drop 5 (printTagsHeader @ sample_tags) ! 1 \<le> drop 5 (printTagsHeader @ sample_tags) ! 4"
    using s by blast
  then have "sample_tags ! 1 \<le> sample_tags ! 4"
    by (simp only: body)
  then show ?thesis
    using sample_main body by (simp only: simp_thms)
qed

text \<open>
  C7. The output of a run is a function of its input files: whatever orders the two
  \<^verbatim>\<open>range\<close> loops over the maps of packages and of files take, the run yields the
  same lines, or panics in both cases.
\<close>

theorem main_deterministic:
  assumes "iteration_order pkgOrder" and "iteration_order fileOrder"
    and "iteration_order pkgOrder'" and "iteration_order fileOrder'"
  shows "main disk fset ParseFile files pkgOrder fileOrder
       = main disk fset ParseFile files pkgOrder' fileOrder'"
  by (simp only: main_any_order [OF assms(1,2)] main_any_order [OF assms(3,4)])

theorem main_deterministic_witness:
  "main sample_disk sample_fset sample_ParseFile [''q.go'', ''bad.go'', ''p.go''] rev rev
     = Inr (printTagsHeader @ sample_tags)"
proof -
  have "iteration_order (rev :: (string \<times> Package) list \<Rightarrow> _)"
    and "iteration_order (rev :: (string \<times> File) list \<Rightarrow> _)"
    and "iteration_order (id :: (string \<times> Package) list \<Rightarrow> _)"
    and "iteration_order (id :: (string \<times> File) list \<Rightarrow> _)"
    by (simp_all add: iteration_order_def)
  then have "main sample_disk sample_fset sample_ParseFile [''q.go'', ''bad.go'', ''p.go''] rev rev
      = main sample_disk sample_fset sample_ParseFile [''q.go'', ''bad.go'', ''p.go''] id id"
    by (rule main_deterministic)
  then show ?thesis
    by (simp only: sample_main)
qed

text \<open>
  C8, as stated: the first parse failure is reported to the caller after the run.
  \<^verbatim>\<open>parseFiles\<close> returns it, and \<^verbatim>\<open>main\<close> drops it (\<^verbatim>\<open>pkgs, _ := parseFiles(fset)\<close>):
  the run on a file that fails to parse yields what the run on no file yields.
\<close>

theorem parse_failure_not_reflected:
  "snd (parseFiles sample_ParseFile [''bad.go'']) = Some ''expected declaration'' \<and>
   main sample_disk sample_fset sample_ParseFile [''bad.go''] id id
     = main sample_disk sample_fset sample_ParseFile [] id id"
  by (simp add: main_def parseFiles_def sample_ParseFile_def)

text \<open>
  C8, amended: the files that fail to parse add no tags, and the run yields what it
  yields on the list without them; \<^verbatim>\<open>parseFiles\<close> returns the error of the first
  file that fails to its caller \<^verbatim>\<open>main\<close>, beside the packages, and the result of
  \<^verbatim>\<open>main\<close> depends on the packages alone.
\<close>

theorem parse_failures_skipped:
  "main disk fset P files pkgOrder fileOrder
     = main disk fset P (filter (\<lambda>f. \<not> isl (P f)) files) pkgOrder fileOrder \<and>
   snd (parseFiles P files) = firstFailure P files \<and>
   (fst (parseFiles P files) = fst (parseFiles P' files') \<longrightarrow>
      main disk fset P files pkgOrder fileOrder = main disk fset P' files' pkgOrder fileOrder)"
proof (intro conjI impI)
  have "fst (parseFiles P files) = fst (parseFiles P (filter (\<lambda>f. \<not> isl (P f)) files))"
    unfolding parseFiles_def by (rule parseLoop_skip)
  then show "main disk fset P files pkgOrder fileOrder
      = main disk fset P (filter (\<lambda>f. \<not> isl (P f)) files) pkgOrder fileOrder"
    by (simp add: main_fst)
  show "snd (parseFiles P files) = firstFailure P files"
    by (simp add: parseFiles_def parseLoop_first)
next
  assume "fst (parseFiles P files) = fst (parseFiles P' files')"
  then show "main disk fset P files pkgOrder fileOrder = main disk fset P' files' pkgOrder fileOrder"
    by (simp add: main_fst)
qed

theorem parse_failures_skipped_witness:
  "main sample_disk sample_fset sample_ParseFile [''q.go'', ''bad.go'', ''p.go''] id id
     = main sample_disk sample_fset sample_ParseFile [''q.go'', ''p.go''] id id \<and>
   snd (parseFiles sample_ParseFile [''q.go'', ''bad.go'', ''p.go'']) = Some ''expected declaration''"
proof -
  note t = parse_failures_skipped [where P = sample_ParseFile and P' = sample_ParseFile
      and files = "[''q.go'', ''bad.go'', ''p.go'']" and files' = "[''q.go'', ''p.go'']"
      and disk = sample_disk and fset = sample_fset and pkgOrder = id and fileOrder = id]
  have "fst (parseFiles sample_ParseFile [''q.go'', ''bad.go'', ''p.go''])
      = fst (parseFiles sample_ParseFile [''q.go'', ''p.go''])"
    by (simp add: parseFiles_def sample_ParseFile_def Let_def)
  then have "main sample_disk sample_fset sample_ParseFile [''q.go'', ''bad.go'', ''p.go''] id id
      = main sample_disk sample_fset sample_ParseFile [''q.go'', ''p.go''] id id"
    by (rule t [THEN conjunct2, THEN conjunct2, THEN mp])
  moreover have "snd (parseFiles sample_ParseFile [''q.go'', ''bad.go'', ''p.go''])
      = Some ''expected declaration''"
    by (simp add: t [THEN conjunct2, THEN conjunct1] sample_ParseFile_def)
  ultimately show ?thesis
    by (simp only: simp_thms)
qed

text \<open>
  C9. When no file of the list parses, the run ends without a panic and its output
  is the five header lines and nothing else.
\<close>

theorem no_valid_files:
  assumes "iteration_order pkgOrder" and "\<forall>f\<in>set files. isl (ParseFile f)"
  shows "main disk fset ParseFile files pkgOrder fileOrder
       = Inr [TAG_FILE_FORMAT, TAG_FILE_SORTED, TAG_PROGRAM_AUTHOR, TAG_PROGRAM_NAME, TAG_PROGRAM_URL]"
proof -
  have "filter (\<lambda>f. \<not> isl (ParseFile f)) files = []"
    using assms(2) by (simp add: filter_empty_conv)
  then have "fst (parseFiles ParseFile files) = fst (parseFiles ParseFile [])"
    unfolding parseFiles_def using parseLoop_skip [of ParseFile files "[]" None None] by simp
  then have pkgs: "fst (parseFiles ParseFile files) = []"
    by (simp add: parseFiles_def)
  have "mset (pkgOrder []) = mset ([] :: (string \<times> Package) list)"
    using assms(1) unfolding iteration_order_def by blast
  then have "pkgOrder [] = []"
    by simp
  then show ?thesis
    using pkgs by (simp add: main_fst printTagsHeader_def)
qed

theorem no_valid_files_witness:
  "main sample_disk sample_fset sample_ParseFile [''bad.go'', ''worse.go''] rev rev
     = Inr [''!_TAG_FILE_FORMAT'' @ [TAB] @ ''2'',
            ''!_TAG_FILE_SORTED'' @ [TAB] @ ''1'',
            ''!_TAG_PROGRAM_AUTHOR'' @ [TAB] @ ''Arjen Laarhoven'',
            ''!_TAG_PROGRAM_NAME'' @ [TAB] @ ''taggo'',
            ''!_TAG_PROGRAM_URL'' @ [TAB] @ ''https://github.com/ArjenL/taggo'']"
proof -
  have "iteration_order (rev :: (string \<times> Package) list \<Rightarrow> _)"
    by (simp add: iteration_order_def)
  moreover have "\<forall>f\<in>set [''bad.go'', ''worse.go'']. isl (sample_ParseFile f)"
    by (simp add: sample_ParseFile_def)
  ultimately have "main sample_disk sample_fset sample_ParseFile [''bad.go'', ''worse.go''] rev rev
      = Inr [TAG_FILE_FORMAT, TAG_FILE_SORTED, TAG_PROGRAM_AUTHOR, TAG_PROGRAM_NAME, TAG_PROGRAM_URL]"
    by (rule no_valid_files)
  then show ?thesis
    by (simp add: TAG_FILE_FORMAT_def TAG_FILE_SORTED_def TAG_PROGRAM_AUTHOR_def
        TAG_PROGRAM_NAME_def TAG_PROGRAM_URL_def)
qed

end
